theory Spec2Isabelle
  imports Main "HOL-Library.Word"
begin

section \<open>Strings of the source language\<close>

text \<open>
  A JavaScript string is a sequence of UTF-16 code units; \<open>csvText.length\<close> counts
  them and \<open>csvText[i]\<close> reads one (\<open>undefined\<close> when \<open>i\<close> is out of range).
\<close>

type_synonym code_unit = "16 word"
type_synonym jsstring = "code_unit list"
type_synonym row = "jsstring list"
type_synonym table = "row list"

abbreviation QUOTE :: code_unit where "QUOTE \<equiv> 0x22"
abbreviation COMMA :: code_unit where "COMMA \<equiv> 0x2C"
abbreviation LF :: code_unit where "LF \<equiv> 0x0A"
abbreviation CR :: code_unit where "CR \<equiv> 0x0D"
abbreviation SPACE :: code_unit where "SPACE \<equiv> 0x20"

text \<open>An ASCII literal of the theory as a JavaScript string.\<close>

definition js :: "string \<Rightarrow> jsstring" where
  "js s = map of_char s"

text \<open>\<open>csvText[i]\<close>: \<open>None\<close> stands for \<open>undefined\<close>.\<close>

definition charAt :: "jsstring \<Rightarrow> nat \<Rightarrow> code_unit option" where
  "charAt s i = (if i < length s then Some (s ! i) else None)"

text \<open>
  \<open>String.prototype.trim\<close> belongs to the language runtime, not to the repository.
  It removes, from both ends, the code units that ECMAScript calls WhiteSpace
  (TAB, VT, FF, SP, NBSP, ZWNBSP and the other space separators) or LineTerminator
  (LF, CR, LS, PS).
\<close>

definition isWhiteSpace :: "code_unit \<Rightarrow> bool" where
  "isWhiteSpace c \<longleftrightarrow>
     c = 0x09 \<or> c = 0x0A \<or> c = 0x0B \<or> c = 0x0C \<or> c = 0x0D \<or> c = 0x20 \<or>
     c = 0xA0 \<or> c = 0x1680 \<or> (0x2000 \<le> c \<and> c \<le> 0x200A) \<or>
     c = 0x2028 \<or> c = 0x2029 \<or> c = 0x202F \<or> c = 0x205F \<or> c = 0x3000 \<or>
     c = 0xFEFF"

definition trim :: "jsstring \<Rightarrow> jsstring" where
  "trim s = rev (dropWhile isWhiteSpace (rev (dropWhile isWhiteSpace s)))"

section \<open>The parser of \<open>csv_to_html/script.js\<close>\<close>

text \<open>The mutable variables of \<open>parseCSV\<close>.\<close>

record pstate =
  rows :: table
  currentRow :: row
  currentField :: jsstring
  insideQuotes :: bool

text \<open>
  One pass through the body of the \<open>for\<close> loop at index \<open>i\<close>, which the loop
  enters only when \<open>i < csvText.length\<close>. The result is the index as the body leaves
  it (the body's own \<open>i++\<close> included, the loop header's not) and the updated variables.
\<close>

definition body :: "jsstring \<Rightarrow> nat \<Rightarrow> pstate \<Rightarrow> nat \<times> pstate" where
  "body csvText i st =
     (let char = csvText ! i; nextChar = charAt csvText (i + 1) in
      if char = QUOTE then
        (if insideQuotes st \<and> nextChar = Some QUOTE
         then (i + 1, st\<lparr>currentField := currentField st @ [QUOTE]\<rparr>)
         else (i, st\<lparr>insideQuotes := \<not> insideQuotes st\<rparr>))
      else if char = COMMA \<and> \<not> insideQuotes st then
        (i, st\<lparr>currentRow := currentRow st @ [trim (currentField st)],
                currentField := []\<rparr>)
      else if (char = LF \<or> char = CR) \<and> \<not> insideQuotes st then
        (let i' = (if char = CR \<and> nextChar = Some LF then i + 1 else i) in
         if currentField st \<noteq> [] \<or> length (currentRow st) > 0
         then (i', st\<lparr>rows := rows st @ [currentRow st @ [trim (currentField st)]],
                       currentRow := [], currentField := []\<rparr>)
         else (i', st))
      else (i, st\<lparr>currentField := currentField st @ [char]\<rparr>))"

text \<open>
  The \<open>for\<close> loop. \<open>None\<close> is the loop never leaving; that it always leaves is
  a theorem below, not a part of the definition.
\<close>

partial_function (option) loop :: "jsstring \<Rightarrow> nat \<Rightarrow> pstate \<Rightarrow> pstate option" where
  "loop csvText i st =
     (if i < length csvText
      then (case body csvText i st of (i', st') \<Rightarrow> loop csvText (i' + 1) st')
      else Some st)"

text \<open>The block after the loop: the last field and row.\<close>

definition lastRow :: "pstate \<Rightarrow> pstate" where
  "lastRow st =
     (if currentField st \<noteq> [] \<or> length (currentRow st) > 0
      then st\<lparr>rows := rows st @ [currentRow st @ [trim (currentField st)]]\<rparr>
      else st)"

definition initial :: pstate where
  "initial = \<lparr>rows = [], currentRow = [], currentField = [], insideQuotes = False\<rparr>"

definition parseCSV :: "jsstring \<Rightarrow> table option" where
  "parseCSV csvText =
     (case loop csvText 0 initial of
        None \<Rightarrow> None
      | Some st \<Rightarrow>
          Some (filter (\<lambda>row. list_ex (\<lambda>cell. cell \<noteq> []) row) (rows (lastRow st))))"

section \<open>The parser of \<open>csv_to_wpblock/script.js\<close>\<close>

text \<open>The second script has a \<open>parseCSV\<close> of its own, translated here line by line.\<close>

definition body_wp :: "jsstring \<Rightarrow> nat \<Rightarrow> pstate \<Rightarrow> nat \<times> pstate" where
  "body_wp csvText i st =
     (let char = csvText ! i; nextChar = charAt csvText (i + 1) in
      if char = QUOTE then
        (if insideQuotes st \<and> nextChar = Some QUOTE
         then (i + 1, st\<lparr>currentField := currentField st @ [QUOTE]\<rparr>)
         else (i, st\<lparr>insideQuotes := \<not> insideQuotes st\<rparr>))
      else if char = COMMA \<and> \<not> insideQuotes st then
        (i, st\<lparr>currentRow := currentRow st @ [trim (currentField st)],
                currentField := []\<rparr>)
      else if (char = LF \<or> char = CR) \<and> \<not> insideQuotes st then
        (let i' = (if char = CR \<and> nextChar = Some LF then i + 1 else i) in
         if currentField st \<noteq> [] \<or> length (currentRow st) > 0
         then (i', st\<lparr>rows := rows st @ [currentRow st @ [trim (currentField st)]],
                       currentRow := [], currentField := []\<rparr>)
         else (i', st))
      else (i, st\<lparr>currentField := currentField st @ [char]\<rparr>))"

partial_function (option) loop_wp :: "jsstring \<Rightarrow> nat \<Rightarrow> pstate \<Rightarrow> pstate option" where
  "loop_wp csvText i st =
     (if i < length csvText
      then (case body_wp csvText i st of (i', st') \<Rightarrow> loop_wp csvText (i' + 1) st')
      else Some st)"

definition lastRow_wp :: "pstate \<Rightarrow> pstate" where
  "lastRow_wp st =
     (if currentField st \<noteq> [] \<or> length (currentRow st) > 0
      then st\<lparr>rows := rows st @ [currentRow st @ [trim (currentField st)]]\<rparr>
      else st)"

definition parseCSV_wp :: "jsstring \<Rightarrow> table option" where
  "parseCSV_wp csvText =
     (case loop_wp csvText 0 initial of
        None \<Rightarrow> None
      | Some st \<Rightarrow>
          Some (filter (\<lambda>row. list_ex (\<lambda>cell. cell \<noteq> []) row) (rows (lastRow_wp st))))"

section \<open>Predicates on the parser's variables\<close>

text \<open>Every cell already stored is left unchanged by another \<open>trim\<close>.\<close>

definition trimmed :: "pstate \<Rightarrow> bool" where
  "trimmed st \<longleftrightarrow>
     (\<forall>row\<in>set (rows st). \<forall>cell\<in>set row. trim cell = cell) \<and>
     (\<forall>cell\<in>set (currentRow st). trim cell = cell)"

text \<open>No text stored so far holds a quote character.\<close>

definition quoteFree :: "pstate \<Rightarrow> bool" where
  "quoteFree st \<longleftrightarrow>
     (\<forall>row\<in>set (rows st). \<forall>cell\<in>set row. QUOTE \<notin> set cell) \<and>
     (\<forall>cell\<in>set (currentRow st). QUOTE \<notin> set cell) \<and>
     QUOTE \<notin> set (currentField st)"

text \<open>Two quote characters stand side by side at \<open>i\<close> and \<open>i + 1\<close>.\<close>

definition escapedAt :: "jsstring \<Rightarrow> nat \<Rightarrow> bool" where
  "escapedAt csvText i \<longleftrightarrow>
     i + 1 < length csvText \<and> csvText ! i = QUOTE \<and> csvText ! (i + 1) = QUOTE"

text \<open>Nothing but white space has been read, outside quotes.\<close>

definition blank :: "pstate \<Rightarrow> bool" where
  "blank st \<longleftrightarrow>
     (\<forall>row\<in>set (rows st). \<forall>cell\<in>set row. cell = []) \<and> currentRow st = [] \<and>
     (\<forall>c\<in>set (currentField st). isWhiteSpace c) \<and> \<not> insideQuotes st"

text \<open>What a row terminator outside quotes does to the variables.\<close>

definition endRow :: "pstate \<Rightarrow> pstate" where
  "endRow st =
     (if currentField st \<noteq> [] \<or> currentRow st \<noteq> []
      then st\<lparr>rows := rows st @ [currentRow st @ [trim (currentField st)]],
              currentRow := [], currentField := []\<rparr>
      else st)"

text \<open>A row that \<open>row.some(cell => cell !== '')\<close> keeps.\<close>

abbreviation nonBlank :: "row \<Rightarrow> bool" where
  "nonBlank row \<equiv> list_ex (\<lambda>cell. cell \<noteq> []) row"

text \<open>The variables, written out.\<close>

abbreviation vars :: "table \<Rightarrow> row \<Rightarrow> jsstring \<Rightarrow> bool \<Rightarrow> pstate" where
  "vars R C F b \<equiv> \<lparr>rows = R, currentRow = C, currentField = F, insideQuotes = b\<rparr>"

text \<open>
  The pairs of index and variables with which the loop enters its body or leaves,
  on the input \<open>csvText\<close>.
\<close>

inductive reach :: "jsstring \<Rightarrow> nat \<Rightarrow> pstate \<Rightarrow> bool" for csvText :: jsstring where
  start: "reach csvText 0 initial"
| step: "reach csvText i st \<Longrightarrow> i < length csvText \<Longrightarrow> body csvText i st = (i', st') \<Longrightarrow>
         reach csvText (i' + 1) st'"

text \<open>The body takes its escaped-quote branch at \<open>i\<close>.\<close>

definition escapes :: "jsstring \<Rightarrow> nat \<Rightarrow> pstate \<Rightarrow> bool" where
  "escapes csvText i st \<longleftrightarrow>
     csvText ! i = QUOTE \<and> insideQuotes st \<and> charAt csvText (i + 1) = Some QUOTE"

text \<open>
  A place where a field can be finalized: a comma or a terminator read outside
  quotes, or the end of the input.
\<close>

definition finalizes :: "jsstring \<Rightarrow> nat \<Rightarrow> pstate \<Rightarrow> bool" where
  "finalizes csvText i st \<longleftrightarrow>
     length csvText \<le> i \<or>
     (\<not> insideQuotes st \<and> (csvText ! i = COMMA \<or> csvText ! i = LF \<or> csvText ! i = CR))"

text \<open>The cells pushed so far.\<close>

definition stored :: "pstate \<Rightarrow> jsstring set" where
  "stored st = (\<Union>row\<in>set (rows st). set row) \<union> set (currentRow st)"

section \<open>Writing a table as CSV text\<close>

text \<open>
  The inverse direction, as a yardstick for the parser: a field is written as it is
  when it holds no quote character, comma, line feed or carriage return, or between
  quotes with every quote character doubled; fields are joined by commas and rows
  by line feeds.
\<close>

datatype csvField = Plain jsstring | Quoted jsstring

fun content :: "csvField \<Rightarrow> jsstring" where
  "content (Plain w) = w"
| "content (Quoted w) = w"

fun escapeQuotes :: "jsstring \<Rightarrow> jsstring" where
  "escapeQuotes [] = []"
| "escapeQuotes (c # w) =
     (if c = QUOTE then QUOTE # QUOTE # escapeQuotes w else c # escapeQuotes w)"

fun encodeField :: "csvField \<Rightarrow> jsstring" where
  "encodeField (Plain w) = w"
| "encodeField (Quoted w) = QUOTE # escapeQuotes w @ [QUOTE]"

fun joinWith :: "code_unit \<Rightarrow> jsstring list \<Rightarrow> jsstring" where
  "joinWith sep [] = []"
| "joinWith sep [x] = x"
| "joinWith sep (x # y # xs) = x @ sep # joinWith sep (y # xs)"

definition encodeTable :: "csvField list list \<Rightarrow> jsstring" where
  "encodeTable grid = joinWith LF (map (\<lambda>r. joinWith COMMA (map encodeField r)) grid)"

definition plainText :: "jsstring \<Rightarrow> bool" where
  "plainText w \<longleftrightarrow> QUOTE \<notin> set w \<and> COMMA \<notin> set w \<and> LF \<notin> set w \<and> CR \<notin> set w"

fun fieldOk :: "csvField \<Rightarrow> bool" where
  "fieldOk (Plain w) = plainText w"
| "fieldOk (Quoted w) = True"

text \<open>Every row has a field, and every field written without quotes may be.\<close>

definition wellFormed :: "csvField list list \<Rightarrow> bool" where
  "wellFormed grid \<longleftrightarrow> list_all (\<lambda>r. r \<noteq> [] \<and> list_all fieldOk r) grid"

text \<open>The cells of a row of fields: each field's text, trimmed.\<close>

abbreviation cellsOf :: "csvField list \<Rightarrow> row" where
  "cellsOf r \<equiv> map (\<lambda>f. trim (content f)) r"

section \<open>The loop leaves, with its invariant\<close>

lemma body_index: "i \<le> fst (body csvText i st)"
  by (simp add: body_def Let_def)

lemma loop_invariant:
  assumes "I i st"
    and "\<And>j s. I j s \<Longrightarrow> j < length csvText \<Longrightarrow>
           I (fst (body csvText j s) + 1) (snd (body csvText j s))"
  shows "\<exists>st' k. loop csvText i st = Some st' \<and> length csvText \<le> k \<and> I k st'"
  using assms(1)
proof (induction "length csvText - i" arbitrary: i st rule: less_induct)
  case less
  show ?case
  proof (cases "i < length csvText")
    case False
    then have "loop csvText i st = Some st"
      by (subst loop.simps) simp
    with False less.prems show ?thesis
      by (intro exI [of _ st] exI [of _ i]) simp
  next
    case True
    obtain i' st' where b: "body csvText i st = (i', st')"
      by (cases "body csvText i st")
    have "i \<le> i'"
      using body_index [of i csvText st] b by simp
    with True have "length csvText - (i' + 1) < length csvText - i"
      by arith
    moreover have "I (i' + 1) st'"
      using assms(2) [OF less.prems True] b by simp
    ultimately obtain st'' k where
      "loop csvText (i' + 1) st' = Some st''" "length csvText \<le> k" "I k st''"
      using less.hyps by blast
    moreover have "loop csvText i st = loop csvText (i' + 1) st'"
      using True b by (subst loop.simps) simp
    ultimately show ?thesis by auto
  qed
qed

lemma loop_leaves: "\<exists>st'. loop csvText i st = Some st'"
  using loop_invariant [of "\<lambda>_ _. True" i st csvText] by auto

section \<open>Trimming\<close>

lemma dropWhile_fixed: "xs \<noteq> [] \<Longrightarrow> \<not> P (hd xs) \<Longrightarrow> dropWhile P xs = xs"
  by (cases xs) simp_all

lemma strip_end_split: "xs = rev (dropWhile P (rev xs)) @ rev (takeWhile P (rev xs))"
proof -
  have "rev (takeWhile P (rev xs) @ dropWhile P (rev xs)) = xs"
    by simp
  then show ?thesis
    by (simp only: rev_append)
qed

lemma trim_subset: "set (trim s) \<subseteq> set s"
  by (auto simp: trim_def dest!: set_dropWhileD)

lemma trim_Nil: "trim [] = []"
  by (simp add: trim_def)

lemma trim_blank: "\<forall>c\<in>set s. isWhiteSpace c \<Longrightarrow> trim s = []"
proof -
  assume "\<forall>c\<in>set s. isWhiteSpace c"
  then have d: "dropWhile isWhiteSpace s = []" by simp
  show ?thesis unfolding trim_def d by simp
qed

lemma trim_fixed:
  assumes "s \<noteq> []" "\<not> isWhiteSpace (hd s)" "\<not> isWhiteSpace (last s)"
  shows "trim s = s"
proof -
  have "dropWhile isWhiteSpace s = s"
    using assms by (simp add: dropWhile_fixed)
  moreover have "dropWhile isWhiteSpace (rev s) = rev s"
    using assms by (simp add: dropWhile_fixed hd_rev)
  ultimately show ?thesis
    by (simp add: trim_def)
qed

lemma trim_suffix:
  "dropWhile isWhiteSpace s =
     trim s @ rev (takeWhile isWhiteSpace (rev (dropWhile isWhiteSpace s)))"
  unfolding trim_def by (rule strip_end_split)

lemma trim_split:
  "\<exists>a b. s = a @ trim s @ b \<and> (\<forall>c\<in>set a. isWhiteSpace c) \<and> (\<forall>c\<in>set b. isWhiteSpace c)"
proof -
  let ?a = "takeWhile isWhiteSpace s"
  let ?b = "rev (takeWhile isWhiteSpace (rev (dropWhile isWhiteSpace s)))"
  have "s = ?a @ dropWhile isWhiteSpace s"
    by simp
  then have "s = ?a @ trim s @ ?b"
    using trim_suffix [of s] by simp
  moreover have "\<forall>c\<in>set ?a. isWhiteSpace c"
    by (auto dest: set_takeWhileD)
  moreover have "\<forall>c\<in>set ?b. isWhiteSpace c"
    by (auto dest: set_takeWhileD)
  ultimately show ?thesis by blast
qed

lemma trim_ends:
  assumes "trim s \<noteq> []"
  shows "\<not> isWhiteSpace (hd (trim s)) \<and> \<not> isWhiteSpace (last (trim s))"
proof -
  let ?d = "dropWhile isWhiteSpace s"
  let ?e = "dropWhile isWhiteSpace (rev ?d)"
  have t: "trim s = rev ?e" by (simp add: trim_def)
  with assms have e: "?e \<noteq> []" by simp
  have "\<not> isWhiteSpace (hd ?e)"
    using e by (rule hd_dropWhile)
  then have l: "\<not> isWhiteSpace (last (trim s))"
    using e t by (simp add: last_rev)
  have d: "?d \<noteq> []"
    using trim_suffix [of s] assms by (metis append_is_Nil_conv)
  have "\<not> isWhiteSpace (hd ?d)"
    using d by (rule hd_dropWhile)
  moreover have "hd ?d = hd (trim s)"
    using trim_suffix [of s] assms by (metis hd_append2)
  ultimately show ?thesis using l by simp
qed

lemma trim_idem: "trim (trim s) = trim s"
proof (cases "trim s = []")
  case True
  then show ?thesis by (simp add: trim_Nil)
next
  case False
  then show ?thesis
    using trim_ends [of s] by (simp add: trim_fixed)
qed

section \<open>The branches of the loop body\<close>

lemma body_escape:
  "csvText ! i = QUOTE \<Longrightarrow> insideQuotes st \<Longrightarrow> charAt csvText (i + 1) = Some QUOTE \<Longrightarrow>
   body csvText i st = (i + 1, st\<lparr>currentField := currentField st @ [QUOTE]\<rparr>)"
  by (simp add: body_def)

lemma body_toggle:
  "csvText ! i = QUOTE \<Longrightarrow> \<not> (insideQuotes st \<and> charAt csvText (i + 1) = Some QUOTE) \<Longrightarrow>
   body csvText i st = (i, st\<lparr>insideQuotes := \<not> insideQuotes st\<rparr>)"
  by (simp add: body_def)

lemma body_quoted:
  "csvText ! i \<noteq> QUOTE \<Longrightarrow> insideQuotes st \<Longrightarrow>
   body csvText i st = (i, st\<lparr>currentField := currentField st @ [csvText ! i]\<rparr>)"
  by (simp add: body_def)

lemma body_other:
  "csvText ! i \<noteq> QUOTE \<Longrightarrow> csvText ! i \<noteq> COMMA \<Longrightarrow> csvText ! i \<noteq> LF \<Longrightarrow>
   csvText ! i \<noteq> CR \<Longrightarrow>
   body csvText i st = (i, st\<lparr>currentField := currentField st @ [csvText ! i]\<rparr>)"
  by (simp add: body_def)

lemma body_comma:
  "csvText ! i = COMMA \<Longrightarrow> \<not> insideQuotes st \<Longrightarrow>
   body csvText i st =
     (i, st\<lparr>currentRow := currentRow st @ [trim (currentField st)], currentField := []\<rparr>)"
  by (simp add: body_def)

lemma body_terminator:
  "csvText ! i = LF \<or> csvText ! i = CR \<Longrightarrow> \<not> insideQuotes st \<Longrightarrow>
   body csvText i st =
     (if csvText ! i = CR \<and> charAt csvText (i + 1) = Some LF then i + 1 else i, endRow st)"
  by (auto simp add: body_def Let_def endRow_def)

lemma loop_step:
  "i < length csvText \<Longrightarrow> body csvText i st = (i', st') \<Longrightarrow>
   loop csvText i st = loop csvText (i' + 1) st'"
  by (subst loop.simps) simp

lemma parseCSV_single:
  assumes "loop csvText 0 initial = Some st" "rows st = []" "currentRow st = []"
  shows "parseCSV csvText =
           Some (if trim (currentField st) = [] then [] else [[trim (currentField st)]])"
  using assms by (auto simp: parseCSV_def lastRow_def trim_Nil)

lemma parse_plain:
  assumes "QUOTE \<notin> set w" "COMMA \<notin> set w" "LF \<notin> set w" "CR \<notin> set w"
  shows "parseCSV w = Some (if trim w = [] then [] else [[trim w]])"
proof -
  define I where "I = (\<lambda>i st. i \<le> length w \<and>
    st = \<lparr>rows = [], currentRow = [], currentField = take i w, insideQuotes = False\<rparr>)"
  have "I 0 initial"
    by (simp add: I_def initial_def)
  moreover have "I (fst (body w j s) + 1) (snd (body w j s))"
    if "I j s" "j < length w" for j s
  proof -
    have "w ! j \<in> set w"
      using that(2) by simp
    with assms have "body w j s = (j, s\<lparr>currentField := currentField s @ [w ! j]\<rparr>)"
      by (intro body_other) auto
    with that show ?thesis
      by (simp add: I_def take_Suc_conv_app_nth)
  qed
  ultimately obtain st k where
    "loop w 0 initial = Some st" "length w \<le> k" "I k st"
    using loop_invariant [of I 0 initial w] by blast
  then have "loop w 0 initial = Some st" "rows st = []" "currentRow st = []" "currentField st = w"
    by (simp_all add: I_def)
  then show ?thesis
    using parseCSV_single [of w st] by simp
qed

lemma parse_quoted:
  assumes "QUOTE \<notin> set w"
  shows "parseCSV (QUOTE # w @ [QUOTE]) = Some (if trim w = [] then [] else [[trim w]])"
proof -
  let ?s = "QUOTE # w @ [QUOTE]"
  define I where "I = (\<lambda>i st.
    (i = 0 \<and> st = initial) \<or>
    (1 \<le> i \<and> i \<le> length w + 1 \<and>
      st = \<lparr>rows = [], currentRow = [], currentField = take (i - 1) w, insideQuotes = True\<rparr>) \<or>
    (length w + 2 \<le> i \<and>
      st = \<lparr>rows = [], currentRow = [], currentField = w, insideQuotes = False\<rparr>))"
  have "I 0 initial"
    by (simp add: I_def)
  moreover have "I (fst (body ?s j s) + 1) (snd (body ?s j s))"
    if H: "I j s" "j < length ?s" for j s
  proof -
    consider "j = 0" "s = initial"
      | "1 \<le> j" "j \<le> length w" "s = \<lparr>rows = [], currentRow = [], currentField = take (j - 1) w, insideQuotes = True\<rparr>"
      | "j = length w + 1" "s = \<lparr>rows = [], currentRow = [], currentField = take (j - 1) w, insideQuotes = True\<rparr>"
      using H unfolding I_def by (cases "j \<le> length w") auto
    then show ?thesis
    proof cases
      case 1
      then have "body ?s j s = (j, s\<lparr>insideQuotes := \<not> insideQuotes s\<rparr>)"
        by (intro body_toggle) (simp_all add: initial_def)
      with 1 show ?thesis
        by (simp add: I_def initial_def)
    next
      case 2
      then have "j - 1 < length w"
        by arith
      with 2 have c: "?s ! j = w ! (j - 1)" "j - 1 < length w"
        by (simp_all add: nth_Cons' nth_append)
      then have "?s ! j \<in> set w"
        by simp
      with assms have "?s ! j \<noteq> QUOTE"
        by auto
      then have "body ?s j s = (j, s\<lparr>currentField := currentField s @ [?s ! j]\<rparr>)"
        using 2 by (intro body_quoted) simp_all
      with 2 c show ?thesis
        using take_Suc_conv_app_nth [of "j - 1" w] by (simp add: I_def)
    next
      case 3
      then have "?s ! j = QUOTE" "charAt ?s (j + 1) = None"
        by (simp_all add: nth_append charAt_def)
      then have "body ?s j s = (j, s\<lparr>insideQuotes := \<not> insideQuotes s\<rparr>)"
        by (intro body_toggle) simp_all
      with 3 show ?thesis
        by (simp add: I_def)
    qed
  qed
  ultimately obtain st k where
    "loop ?s 0 initial = Some st" "length ?s \<le> k" "I k st"
    using loop_invariant [of I 0 initial ?s] by blast
  then have "loop ?s 0 initial = Some st" "rows st = []" "currentRow st = []" "currentField st = w"
    by (auto simp: I_def)
  then show ?thesis
    using parseCSV_single [of ?s st] by simp
qed

lemma loop_unclosed:
  assumes "QUOTE \<notin> set w"
  shows "\<exists>st. loop (QUOTE # w) 0 initial = Some st \<and> rows st = [] \<and> currentRow st = [] \<and>
              currentField st = w \<and> insideQuotes st"
proof -
  let ?s = "QUOTE # w"
  define I where "I = (\<lambda>i st.
    (i = 0 \<and> st = initial) \<or>
    (1 \<le> i \<and> i \<le> length w + 1 \<and>
      st = \<lparr>rows = [], currentRow = [], currentField = take (i - 1) w, insideQuotes = True\<rparr>))"
  have "I 0 initial"
    by (simp add: I_def)
  moreover have "I (fst (body ?s j s) + 1) (snd (body ?s j s))"
    if H: "I j s" "j < length ?s" for j s
  proof -
    consider "j = 0" "s = initial"
      | "1 \<le> j" "j \<le> length w" "s = \<lparr>rows = [], currentRow = [], currentField = take (j - 1) w, insideQuotes = True\<rparr>"
      using H by (auto simp: I_def)
    then show ?thesis
    proof cases
      case 1
      then have "body ?s j s = (j, s\<lparr>insideQuotes := \<not> insideQuotes s\<rparr>)"
        by (intro body_toggle) (simp_all add: initial_def)
      with 1 show ?thesis
        by (simp add: I_def initial_def)
    next
      case 2
      then have "j - 1 < length w"
        by arith
      with 2 have c: "?s ! j = w ! (j - 1)" "j - 1 < length w"
        by (simp_all add: nth_Cons')
      then have "?s ! j \<in> set w"
        by simp
      with assms have "?s ! j \<noteq> QUOTE"
        by auto
      then have "body ?s j s = (j, s\<lparr>currentField := currentField s @ [?s ! j]\<rparr>)"
        using 2 by (intro body_quoted) simp_all
      with 2 c show ?thesis
        using take_Suc_conv_app_nth [of "j - 1" w] by (simp add: I_def)
    qed
  qed
  ultimately obtain st k where
    "loop ?s 0 initial = Some st" "length ?s \<le> k" "I k st"
    using loop_invariant [of I 0 initial ?s] by blast
  then have "loop ?s 0 initial = Some st" "rows st = []" "currentRow st = []"
    "currentField st = w" "insideQuotes st"
    by (auto simp: I_def initial_def)
  then show ?thesis
    by blast
qed

lemma parse_unclosed:
  assumes "QUOTE \<notin> set w"
  shows "parseCSV (QUOTE # w) = Some (if trim w = [] then [] else [[trim w]])"
proof -
  obtain st where "loop (QUOTE # w) 0 initial = Some st" "rows st = []" "currentRow st = []"
    "currentField st = w"
    using loop_unclosed [OF assms] by blast
  then show ?thesis
    using parseCSV_single [of "QUOTE # w" st] by simp
qed

section \<open>Invariants of the loop\<close>

lemma loop_state_invariant:
  assumes "P st"
    and "\<And>j s. P s \<Longrightarrow> j < length csvText \<Longrightarrow> P (snd (body csvText j s))"
  shows "\<exists>st'. loop csvText i st = Some st' \<and> P st'"
  using loop_invariant [of "\<lambda>_. P" i st csvText] assms by blast

lemma body_trimmed: "trimmed s \<Longrightarrow> trimmed (snd (body csvText j s))"
  by (auto simp: body_def Let_def trimmed_def trim_idem)

lemma lastRow_trimmed: "trimmed s \<Longrightarrow> trimmed (lastRow s)"
  by (auto simp: lastRow_def trimmed_def trim_idem)

lemma parse_cells_trimmed:
  assumes "parseCSV csvText = Some t" "row \<in> set t" "cell \<in> set row"
  shows "trim cell = cell"
proof -
  have "trimmed initial"
    by (simp add: trimmed_def initial_def)
  then obtain st where st: "loop csvText 0 initial = Some st" "trimmed st"
    using loop_state_invariant [of trimmed initial csvText 0] body_trimmed by blast
  then have "trimmed (lastRow st)"
    by (simp add: lastRow_trimmed)
  moreover have "row \<in> set (rows (lastRow st))"
    using assms st by (auto simp: parseCSV_def)
  ultimately show ?thesis
    using assms(3) by (auto simp: trimmed_def)
qed

lemma trim_quoteFree: "QUOTE \<notin> set s \<Longrightarrow> QUOTE \<notin> set (trim s)"
  using trim_subset [of s] by auto

lemma lastRow_quoteFree: "quoteFree s \<Longrightarrow> quoteFree (lastRow s)"
  by (auto simp: lastRow_def quoteFree_def dest: trim_quoteFree)

lemma not_ws: "\<not> isWhiteSpace QUOTE" "\<not> isWhiteSpace COMMA"
  by (simp_all add: isWhiteSpace_def)

lemma body_blank:
  assumes "blank s" "isWhiteSpace (csvText ! j)"
  shows "blank (snd (body csvText j s))"
proof -
  have "csvText ! j \<noteq> QUOTE" "csvText ! j \<noteq> COMMA"
    using assms(2) not_ws by auto
  with assms show ?thesis
    by (auto simp: body_def Let_def blank_def trim_blank)
qed

lemma parse_blank:
  assumes "\<forall>c\<in>set csvText. isWhiteSpace c"
  shows "parseCSV csvText = Some []"
proof -
  have "blank initial"
    by (simp add: blank_def initial_def)
  moreover have "blank (snd (body csvText j s))" if "blank s" "j < length csvText" for j s
    using that assms by (intro body_blank) simp_all
  ultimately obtain st where st: "loop csvText 0 initial = Some st" "blank st"
    using loop_state_invariant [of blank initial csvText 0] by blast
  have "\<forall>row\<in>set (rows (lastRow st)). \<forall>cell\<in>set row. cell = []"
    using st(2) by (auto simp: lastRow_def blank_def trim_blank)
  then have "filter (\<lambda>row. list_ex (\<lambda>cell. cell \<noteq> []) row) (rows (lastRow st)) = []"
    by (auto simp: filter_empty_conv list_ex_iff)
  with st(1) show ?thesis
    by (simp add: parseCSV_def)
qed

section \<open>Where cells and quote characters come from\<close>

lemma loop_reach_invariant:
  assumes "reach csvText i st" "P st"
    and "\<And>j s. reach csvText j s \<Longrightarrow> P s \<Longrightarrow> j < length csvText \<Longrightarrow> P (snd (body csvText j s))"
  shows "\<exists>st' k. loop csvText i st = Some st' \<and> length csvText \<le> k \<and> reach csvText k st' \<and> P st'"
proof -
  let ?I = "\<lambda>j s. reach csvText j s \<and> P s"
  have "?I i st"
    using assms(1,2) by simp
  moreover have "?I (fst (body csvText j s) + 1) (snd (body csvText j s))"
    if H: "?I j s" "j < length csvText" for j s
  proof
    show "reach csvText (fst (body csvText j s) + 1) (snd (body csvText j s))"
      using H by (intro reach.step [of csvText j s]) simp_all
    show "P (snd (body csvText j s))"
      using H assms(3) by blast
  qed
  ultimately show ?thesis
    using loop_invariant [of ?I i st csvText] by blast
qed

lemma body_keeps_quoteFree:
  assumes "\<not> escapes csvText i st" "quoteFree st"
  shows "quoteFree (snd (body csvText i st))"
  using assms by (auto simp: escapes_def body_def Let_def quoteFree_def dest: trim_quoteFree)

lemma escapes_escapedAt: "escapes csvText i st \<Longrightarrow> escapedAt csvText i"
  by (auto simp: escapes_def escapedAt_def charAt_def split: if_splits)

lemma parse_quote_escape:
  assumes "parseCSV csvText = Some t" "row \<in> set t" "cell \<in> set row" "QUOTE \<in> set cell"
  shows "\<exists>j s. reach csvText j s \<and> j < length csvText \<and> escapes csvText j s \<and> escapedAt csvText j"
proof -
  let ?E = "\<exists>j s. reach csvText j s \<and> j < length csvText \<and> escapes csvText j s"
  let ?P = "\<lambda>s. quoteFree s \<or> ?E"
  have "?P initial"
    by (simp add: quoteFree_def initial_def)
  moreover have "?P (snd (body csvText j s))"
    if "reach csvText j s" "?P s" "j < length csvText" for j s
  proof (cases "escapes csvText j s")
    case True
    with that show ?thesis by blast
  next
    case False
    with that(2) show ?thesis
      using body_keeps_quoteFree [of csvText j s] by blast
  qed
  ultimately obtain st where st: "loop csvText 0 initial = Some st" "?P st"
    using loop_reach_invariant [of csvText 0 initial ?P] reach.start [of csvText] by blast
  have "row \<in> set (rows (lastRow st))"
    using assms st by (auto simp: parseCSV_def)
  then have "\<not> quoteFree (lastRow st)"
    using assms(3,4) by (auto simp: quoteFree_def)
  then have "\<not> quoteFree st"
    using lastRow_quoteFree [of st] by blast
  with st(2) show ?thesis
    using escapes_escapedAt by blast
qed

lemma body_stored:
  "stored (snd (body csvText j s)) \<subseteq>
     stored s \<union> (if finalizes csvText j s then {trim (currentField s)} else {})"
  by (auto simp: body_def Let_def stored_def finalizes_def)

lemma lastRow_stored: "stored (lastRow s) \<subseteq> stored s \<union> {trim (currentField s)}"
  by (auto simp: lastRow_def stored_def)

lemma parse_cell_origin:
  assumes "parseCSV csvText = Some t" "row \<in> set t" "cell \<in> set row"
  shows "\<exists>j s. reach csvText j s \<and> finalizes csvText j s \<and> cell = trim (currentField s)"
proof -
  let ?O = "\<lambda>c. \<exists>j s. reach csvText j s \<and> finalizes csvText j s \<and> c = trim (currentField s)"
  let ?P = "\<lambda>s. \<forall>c\<in>stored s. ?O c"
  have "?P initial"
    by (simp add: stored_def initial_def)
  moreover have "?P (snd (body csvText j s))"
    if H: "reach csvText j s" "?P s" "j < length csvText" for j s
  proof
    fix c assume "c \<in> stored (snd (body csvText j s))"
    then have "c \<in> stored s \<or> (finalizes csvText j s \<and> c = trim (currentField s))"
      using body_stored [of csvText j s] by (auto split: if_splits)
    then show "?O c"
      using H(1,2) by blast
  qed
  ultimately obtain st k where st: "loop csvText 0 initial = Some st" "length csvText \<le> k"
    "reach csvText k st" "?P st"
    using loop_reach_invariant [of csvText 0 initial ?P] reach.start [of csvText] by blast
  have "row \<in> set (rows (lastRow st))"
    using assms st by (auto simp: parseCSV_def)
  then have "cell \<in> stored (lastRow st)"
    using assms(3) by (auto simp: stored_def)
  then have "cell \<in> stored st \<or> cell = trim (currentField st)"
    using lastRow_stored [of st] by auto
  moreover have "finalizes csvText k st"
    using st(2) by (simp add: finalizes_def)
  ultimately show ?thesis
    using st(3,4) by blast
qed

section \<open>The loop on a text behind a prefix\<close>

lemma charAt_shift: "charAt (pre @ s) (length pre + i) = charAt s i"
  by (simp add: charAt_def)

lemma body_shift:
  "body (pre @ s) (length pre + i) st = (length pre + fst (body s i st), snd (body s i st))"
proof -
  have "(pre @ s) ! (length pre + i) = s ! i"
    by simp
  moreover have "charAt (pre @ s) (length pre + i + 1) = charAt s (i + 1)"
    using charAt_shift [of pre s "i + 1"] by (simp add: add.assoc)
  ultimately show ?thesis
    by (simp add: body_def Let_def)
qed

lemma loop_shift: "loop (pre @ s) (length pre + i) st = loop s i st"
proof (induction "length s - i" arbitrary: i st rule: less_induct)
  case less
  show ?case
  proof (cases "i < length s")
    case False
    then have "loop (pre @ s) (length pre + i) st = Some st"
      by (subst loop.simps) simp
    moreover from False have "loop s i st = Some st"
      by (subst loop.simps) simp
    ultimately show ?thesis by simp
  next
    case True
    obtain i' st' where b: "body s i st = (i', st')"
      by (cases "body s i st")
    have "i \<le> i'"
      using body_index [of i s st] b by simp
    with True have "length s - (i' + 1) < length s - i"
      by arith
    then have "loop (pre @ s) (length pre + (i' + 1)) st' = loop s (i' + 1) st'"
      by (rule less.hyps)
    moreover have "loop s i st = loop s (i' + 1) st'"
      using True b by (rule loop_step)
    moreover have "loop (pre @ s) (length pre + i) st = loop (pre @ s) (length pre + i' + 1) st'"
    proof (rule loop_step)
      show "length pre + i < length (pre @ s)"
        using True by simp
      show "body (pre @ s) (length pre + i) st = (length pre + i', st')"
        using body_shift [of pre s i st] b by simp
    qed
    ultimately show ?thesis by (simp add: add.assoc)
  qed
qed

lemma loop_Nil: "loop [] 0 st = Some st"
  by (subst loop.simps) simp

lemma loop_Cons:
  assumes "body (c # s) 0 st = (0, st')"
  shows "loop (c # s) 0 st = loop s 0 st'"
proof -
  have "loop (c # s) 0 st = loop (c # s) (0 + 1) st'"
    using assms by (intro loop_step) simp_all
  also have "\<dots> = loop ([c] @ s) (length [c] + 0) st'"
    by simp
  also have "\<dots> = loop s 0 st'"
    by (rule loop_shift)
  finally show ?thesis .
qed

lemma loop_Cons2:
  assumes "body (c # d # s) 0 st = (1, st')"
  shows "loop (c # d # s) 0 st = loop s 0 st'"
proof -
  have "loop (c # d # s) 0 st = loop (c # d # s) (1 + 1) st'"
    using assms by (intro loop_step) simp_all
  also have "\<dots> = loop ([c, d] @ s) (length [c, d] + 0) st'"
    by simp
  also have "\<dots> = loop s 0 st'"
    by (rule loop_shift)
  finally show ?thesis .
qed

lemma scan_plain:
  "plainText u \<Longrightarrow> loop (u @ s) 0 (vars R C F b) = loop s 0 (vars R C (F @ u) b)"
proof (induction u arbitrary: F)
  case Nil
  then show ?case by simp
next
  case (Cons c u)
  then have c: "c \<noteq> QUOTE" "c \<noteq> COMMA" "c \<noteq> LF" "c \<noteq> CR" and u: "plainText u"
    by (auto simp: plainText_def)
  have "body (c # u @ s) 0 (vars R C F b) = (0, vars R C (F @ [c]) b)"
    using c by (simp add: body_def)
  then have "loop (c # u @ s) 0 (vars R C F b) = loop (u @ s) 0 (vars R C (F @ [c]) b)"
    by (rule loop_Cons)
  also have "\<dots> = loop s 0 (vars R C ((F @ [c]) @ u) b)"
    using u by (rule Cons.IH)
  finally show ?case by simp
qed

lemma scan_quoted:
  assumes "s = [] \<or> hd s \<noteq> QUOTE"
  shows "loop (escapeQuotes w @ QUOTE # s) 0 (vars R C F True) = loop s 0 (vars R C (F @ w) False)"
proof (induction w arbitrary: F)
  case Nil
  have "charAt (QUOTE # s) 1 \<noteq> Some QUOTE"
    using assms by (cases s) (simp_all add: charAt_def)
  then have "body (QUOTE # s) 0 (vars R C F True) = (0, vars R C F False)"
    by (simp add: body_def)
  then have "loop (QUOTE # s) 0 (vars R C F True) = loop s 0 (vars R C F False)"
    by (rule loop_Cons)
  then show ?case by simp
next
  case (Cons c w)
  show ?case
  proof (cases "c = QUOTE")
    case True
    have "body (QUOTE # QUOTE # escapeQuotes w @ QUOTE # s) 0 (vars R C F True) =
        (1, vars R C (F @ [QUOTE]) True)"
      by (simp add: body_def charAt_def)
    then have "loop (QUOTE # QUOTE # escapeQuotes w @ QUOTE # s) 0 (vars R C F True) =
        loop (escapeQuotes w @ QUOTE # s) 0 (vars R C (F @ [QUOTE]) True)"
      by (rule loop_Cons2)
    also have "\<dots> = loop s 0 (vars R C ((F @ [QUOTE]) @ w) False)"
      by (rule Cons.IH)
    finally show ?thesis using True by simp
  next
    case False
    then have "body (c # escapeQuotes w @ QUOTE # s) 0 (vars R C F True) = (0, vars R C (F @ [c]) True)"
      by (simp add: body_def)
    then have "loop (c # escapeQuotes w @ QUOTE # s) 0 (vars R C F True) =
        loop (escapeQuotes w @ QUOTE # s) 0 (vars R C (F @ [c]) True)"
      by (rule loop_Cons)
    also have "\<dots> = loop s 0 (vars R C ((F @ [c]) @ w) False)"
      by (rule Cons.IH)
    finally show ?thesis using False by simp
  qed
qed

lemma scan_field:
  assumes "fieldOk f" "s = [] \<or> hd s \<noteq> QUOTE"
  shows "loop (encodeField f @ s) 0 (vars R C [] False) = loop s 0 (vars R C (content f) False)"
proof (cases f)
  case (Plain w)
  then show ?thesis
    using assms(1) scan_plain [of w s R C "[]" False] by simp
next
  case (Quoted w)
  have "body (QUOTE # escapeQuotes w @ QUOTE # s) 0 (vars R C [] False) = (0, vars R C [] True)"
    by (simp add: body_def)
  then have "loop (QUOTE # escapeQuotes w @ QUOTE # s) 0 (vars R C [] False) =
      loop (escapeQuotes w @ QUOTE # s) 0 (vars R C [] True)"
    by (rule loop_Cons)
  also have "\<dots> = loop s 0 (vars R C ([] @ w) False)"
    using assms(2) by (rule scan_quoted)
  finally show ?thesis
    using Quoted by simp
qed

lemma scan_comma:
  "loop (COMMA # s) 0 (vars R C F False) = loop s 0 (vars R (C @ [trim F]) [] False)"
proof -
  have "body (COMMA # s) 0 (vars R C F False) = (0, vars R (C @ [trim F]) [] False)"
    by (simp add: body_def)
  then show ?thesis
    by (rule loop_Cons)
qed

lemma scan_row:
  assumes "r \<noteq> []" "list_all fieldOk r" "s = [] \<or> hd s \<noteq> QUOTE"
  shows "loop (joinWith COMMA (map encodeField r) @ s) 0 (vars R C [] False) =
         loop s 0 (vars R (C @ map (\<lambda>f. trim (content f)) (butlast r)) (content (last r)) False)"
  using assms(1,2)
proof (induction r arbitrary: C)
  case Nil
  then show ?case by simp
next
  case (Cons f r)
  show ?case
  proof (cases r)
    case Nil
    then show ?thesis
      using Cons.prems assms(3) scan_field [of f s R C] by simp
  next
    case (Cons g r')
    have ok: "fieldOk f" "list_all fieldOk r" "r \<noteq> []"
      using Cons.prems Cons by simp_all
    let ?rest = "joinWith COMMA (map encodeField r) @ s"
    have "joinWith COMMA (map encodeField (f # r)) @ s = encodeField f @ COMMA # ?rest"
      using Cons by simp
    moreover have "loop (encodeField f @ COMMA # ?rest) 0 (vars R C [] False) =
        loop (COMMA # ?rest) 0 (vars R C (content f) False)"
      using ok(1) by (intro scan_field) simp_all
    moreover have "loop (COMMA # ?rest) 0 (vars R C (content f) False) =
        loop ?rest 0 (vars R (C @ [trim (content f)]) [] False)"
      by (rule scan_comma)
    moreover have "loop ?rest 0 (vars R (C @ [trim (content f)]) [] False) =
        loop s 0 (vars R ((C @ [trim (content f)]) @ map (\<lambda>f. trim (content f)) (butlast r))
          (content (last r)) False)"
      using ok(3,2) by (rule Cons.IH)
    ultimately show ?thesis
      using ok(3) by simp
  qed
qed

lemma scan_terminator:
  "loop (LF # s) 0 (vars R C F False) = loop s 0 (endRow (vars R C F False))"
proof -
  have "body (LF # s) 0 (vars R C F False) = (0, endRow (vars R C F False))"
    using body_terminator [of "LF # s" 0 "vars R C F False"] by simp
  then show ?thesis
    by (rule loop_Cons)
qed

lemma cellsOf_snoc: "r \<noteq> [] \<Longrightarrow> cellsOf (butlast r) @ [trim (content (last r))] = cellsOf r"
proof -
  assume "r \<noteq> []"
  then have "cellsOf r = cellsOf (butlast r @ [last r])"
    by simp
  then show ?thesis
    by (simp only: map_append list.map)
qed

lemma blank_single:
  assumes "r \<noteq> []" "content (last r) = []" "butlast r = []"
  shows "\<not> nonBlank (cellsOf r)"
proof -
  have "r = [last r]"
    using assms(1,3) by (metis append_butlast_last_id append_Nil)
  then have "cellsOf r = [trim (content (last r))]"
    by (metis list.map(1) list.map(2))
  then show ?thesis
    using assms(2) by (simp add: trim_Nil)
qed

lemma butlast_nonempty: "butlast r \<noteq> [] \<longleftrightarrow> Suc 0 < length r"
  by (cases r) auto

lemma scan_rows:
  assumes "wellFormed grid"
  shows "\<exists>st. loop (encodeTable grid) 0 (vars R [] [] False) = Some st \<and>
           filter nonBlank (rows (lastRow st)) =
             filter nonBlank R @ filter nonBlank (map cellsOf grid)"
  using assms
proof (induction grid arbitrary: R)
  case Nil
  then show ?case
    by (simp add: encodeTable_def loop_Nil lastRow_def)
next
  case (Cons r grid)
  have r: "r \<noteq> []" "list_all fieldOk r" and g: "wellFormed grid"
    using Cons.prems by (simp_all add: wellFormed_def)
  let ?line = "joinWith COMMA (map encodeField r)"
  let ?after = "vars R (cellsOf (butlast r)) (content (last r)) False"
  show ?case
  proof (cases grid)
    case Nil
    have "loop (?line @ []) 0 (vars R [] [] False) = loop [] 0 (vars R ([] @ cellsOf (butlast r)) (content (last r)) False)"
      using r by (intro scan_row) simp_all
    then have l: "loop (encodeTable (r # grid)) 0 (vars R [] [] False) = Some ?after"
      using Nil by (simp add: encodeTable_def loop_Nil)
    have "filter nonBlank (rows (lastRow ?after)) = filter nonBlank R @ filter nonBlank [cellsOf r]"
    proof (cases "content (last r) \<noteq> [] \<or> butlast r \<noteq> []")
      case True
      then have "rows (lastRow ?after) = R @ [cellsOf (butlast r) @ [trim (content (last r))]]"
        by (auto simp: lastRow_def butlast_nonempty)
      then show ?thesis
        using cellsOf_snoc [OF r(1)] by simp
    next
      case False
      then have "rows (lastRow ?after) = R"
        by (simp add: lastRow_def butlast_nonempty)
      moreover have "\<not> nonBlank (cellsOf r)"
        using r(1) False by (intro blank_single) simp_all
      ultimately show ?thesis
        by simp
    qed
    with l Nil show ?thesis
      by simp
  next
    case (Cons r' grid')
    let ?rest = "encodeTable grid"
    have e: "encodeTable (r # grid) = ?line @ LF # ?rest"
      using Cons by (simp add: encodeTable_def)
    have "loop (?line @ LF # ?rest) 0 (vars R [] [] False) =
        loop (LF # ?rest) 0 (vars R ([] @ cellsOf (butlast r)) (content (last r)) False)"
      using r by (intro scan_row) simp_all
    also have "\<dots> = loop ?rest 0 (endRow ?after)"
      using scan_terminator [of ?rest R "cellsOf (butlast r)" "content (last r)"] by simp
    finally have l: "loop (encodeTable (r # grid)) 0 (vars R [] [] False) = loop ?rest 0 (endRow ?after)"
      using e by simp
    obtain R' where R': "endRow ?after = vars R' [] [] False"
      "filter nonBlank R' = filter nonBlank R @ filter nonBlank [cellsOf r]"
    proof (cases "content (last r) \<noteq> [] \<or> butlast r \<noteq> []")
      case True
      then have "endRow ?after = vars (R @ [cellsOf (butlast r) @ [trim (content (last r))]]) [] [] False"
        by (auto simp: endRow_def)
      then have "endRow ?after = vars (R @ [cellsOf r]) [] [] False"
        using cellsOf_snoc [OF r(1)] by simp
      then show ?thesis
        using that [of "R @ [cellsOf r]"] by simp
    next
      case False
      then have "endRow ?after = vars R [] [] False"
        by (simp add: endRow_def)
      moreover have "\<not> nonBlank (cellsOf r)"
        using r(1) False by (intro blank_single) simp_all
      ultimately show ?thesis
        using that [of R] by simp
    qed
    obtain st where "loop ?rest 0 (vars R' [] [] False) = Some st"
      "filter nonBlank (rows (lastRow st)) = filter nonBlank R' @ filter nonBlank (map cellsOf grid)"
      using Cons.IH [OF g, of R'] by blast
    with l R' show ?thesis
      by simp
  qed
qed

lemma parse_encodeTable:
  assumes "wellFormed grid"
  shows "parseCSV (encodeTable grid) = Some (filter nonBlank (map cellsOf grid))"
proof -
  obtain st where "loop (encodeTable grid) 0 (vars [] [] [] False) = Some st"
    "filter nonBlank (rows (lastRow st)) = filter nonBlank [] @ filter nonBlank (map cellsOf grid)"
    using scan_rows [OF assms, of "[]"] by blast
  then show ?thesis
    by (simp add: parseCSV_def initial_def)
qed

section \<open>The two copies of the parser\<close>

lemma body_wp_body: "body_wp csvText i st = body csvText i st"
  by (simp add: body_wp_def body_def)

lemma lastRow_wp_lastRow: "lastRow_wp st = lastRow st"
  by (simp add: lastRow_wp_def lastRow_def)

lemma loop_wp_loop: "loop_wp csvText i st = loop csvText i st"
proof (induction "length csvText - i" arbitrary: i st rule: less_induct)
  case less
  show ?case
  proof (cases "i < length csvText")
    case False
    then have "loop_wp csvText i st = Some st"
      by (subst loop_wp.simps) simp
    moreover from False have "loop csvText i st = Some st"
      by (subst loop.simps) simp
    ultimately show ?thesis by simp
  next
    case True
    obtain i' st' where b: "body csvText i st = (i', st')"
      by (cases "body csvText i st")
    have "i \<le> i'"
      using body_index [of i csvText st] b by simp
    with True have "length csvText - (i' + 1) < length csvText - i"
      by arith
    then have "loop_wp csvText (i' + 1) st' = loop csvText (i' + 1) st'"
      by (rule less.hyps)
    moreover have "loop_wp csvText i st = loop_wp csvText (i' + 1) st'"
      using True b by (subst loop_wp.simps) (simp add: body_wp_body)
    moreover have "loop csvText i st = loop csvText (i' + 1) st'"
      using True b by (rule loop_step)
    ultimately show ?thesis by simp
  qed
qed

section \<open>Running the parser on given inputs\<close>

lemma js_Nil: "js [] = []"
  by (simp add: js_def)

lemma js_Cons: "js (c # cs) = of_char c # js cs"
  by (simp add: js_def)

lemmas run =
  parseCSV_def loop.simps body_def lastRow_def initial_def trim_def isWhiteSpace_def
  charAt_def js_Nil js_Cons

lemma run_quoted_comma:
  "parseCSV (QUOTE # js ''a,b'' @ [QUOTE] @ js '',c'' @ [LF] @ js ''1,2'') =
     Some [[js ''a,b'', js ''c''], [js ''1'', js ''2'']]"
  by (simp add: run)

lemma run_quoted_newline:
  "parseCSV (QUOTE # js ''a'' @ [LF] @ js ''b'' @ [QUOTE]) = Some [[js ''a'' @ [LF] @ js ''b'']]"
  by (simp add: run)

lemma run_escaped_quote:
  "parseCSV (QUOTE # js ''a'' @ [QUOTE, QUOTE] @ js ''b'' @ [QUOTE] @ js '',c'') =
     Some [[js ''a'' @ [QUOTE] @ js ''b'', js ''c'']]"
  by (simp add: run)

lemma run_mixed_terminators:
  "parseCSV (js ''a,b'' @ [CR, LF] @ js ''c,d'' @ [LF] @ js ''e,f'') =
     Some [[js ''a'', js ''b''], [js ''c'', js ''d''], [js ''e'', js ''f'']]"
  by (simp add: run)

lemma run_blank_row:
  "parseCSV (js ''a,b'' @ [LF] @ js '','' @ [LF] @ js ''c,d'') =
     Some [[js ''a'', js ''b''], [js ''c'', js ''d'']]"
  by (simp add: run)

lemma run_spaces:
  "parseCSV (js ''  x  , y '') = Some [[js ''x'', js ''y'']]"
  by (simp add: run)

lemma run_inner_spaces:
  "parseCSV (js ''a  b'') = Some [[js ''a  b'']]"
  by (simp add: run)

lemma run_empty: "parseCSV [] = Some []"
  by (simp add: run)

lemma run_blank:
  "parseCSV (js ''   '' @ [LF, LF] @ js ''  '') = Some []"
  by (simp add: run)

lemma run_open_quote:
  "parseCSV (js ''a,'' @ QUOTE # js ''b'') = Some [[js ''a'', js ''b'']]"
  by (simp add: run)

lemma run_comma:
  "parseCSV (js ''a,b'') = Some [[js ''a'', js ''b'']]"
  by (simp add: run)

lemma run_comma_spaces:
  "parseCSV (js '' a b ,c'') = Some [[js ''a b'', js ''c'']]"
  by (simp add: run)

lemma parse_escaped:
  "parseCSV (QUOTE # escapeQuotes w @ [QUOTE]) = Some (if trim w = [] then [] else [[trim w]])"
proof -
  have "wellFormed [[Quoted w]]"
    by (simp add: wellFormed_def)
  then have "parseCSV (encodeTable [[Quoted w]]) = Some (filter nonBlank (map cellsOf [[Quoted w]]))"
    by (rule parse_encodeTable)
  then show ?thesis
    by (simp add: encodeTable_def)
qed

section \<open>The claims\<close>

text \<open>
  C1: for every input string the parser returns a table: the loop leaves on every
  input (the empty string, unmatched quotes and ragged rows included), and no
  branch of the parser raises.
\<close>

theorem parseCSV_total: "\<exists>t. parseCSV csvText = Some t"
proof -
  obtain st where "loop csvText 0 initial = Some st"
    using loop_leaves [of csvText 0 initial] by blast
  then show ?thesis
    by (simp add: parseCSV_def)
qed

theorem parseCSV_total_witness: "\<exists>t. parseCSV (js ''a,'' @ QUOTE # js ''b'') = Some t"
  by (rule parseCSV_total)

text \<open>
  C2: while the quote-mode flag is set, a comma, a line feed or a carriage return is
  appended to the current field and ends neither the field nor the row. So a quoted
  text without quote characters becomes one cell, whatever separators it holds; the
  spec's example with a quoted comma and a quoted line break are instances.
\<close>

theorem separators_inside_quotes:
  "(insideQuotes st \<and> (csvText ! i = COMMA \<or> csvText ! i = LF \<or> csvText ! i = CR) \<longrightarrow>
      body csvText i st = (i, st\<lparr>currentField := currentField st @ [csvText ! i]\<rparr>)) \<and>
   (QUOTE \<notin> set w \<longrightarrow>
      parseCSV (QUOTE # w @ [QUOTE]) = Some (if trim w = [] then [] else [[trim w]])) \<and>
   parseCSV (QUOTE # js ''a,b'' @ [QUOTE] @ js '',c'' @ [LF] @ js ''1,2'') =
     Some [[js ''a,b'', js ''c''], [js ''1'', js ''2'']] \<and>
   parseCSV (QUOTE # js ''a'' @ [LF] @ js ''b'' @ [QUOTE]) = Some [[js ''a'' @ [LF] @ js ''b'']]"
proof (intro conjI impI)
  assume "insideQuotes st \<and> (csvText ! i = COMMA \<or> csvText ! i = LF \<or> csvText ! i = CR)"
  then have "csvText ! i \<noteq> QUOTE" "insideQuotes st"
    by auto
  then show "body csvText i st = (i, st\<lparr>currentField := currentField st @ [csvText ! i]\<rparr>)"
    by (rule body_quoted)
next
  assume "QUOTE \<notin> set w"
  then show "parseCSV (QUOTE # w @ [QUOTE]) = Some (if trim w = [] then [] else [[trim w]])"
    by (rule parse_quoted)
qed (rule run_quoted_comma, rule run_quoted_newline)

theorem separators_inside_quotes_witness:
  "body (QUOTE # js ''a,b'') 2
     \<lparr>rows = [], currentRow = [], currentField = js ''a'', insideQuotes = True\<rparr> =
     (2, \<lparr>rows = [], currentRow = [], currentField = js ''a,'', insideQuotes = True\<rparr>) \<and>
   parseCSV (QUOTE # (js ''x,y'' @ [CR, LF] @ js ''z'') @ [QUOTE]) =
     Some [[js ''x,y'' @ [CR, LF] @ js ''z'']]"
  using separators_inside_quotes
    [of "\<lparr>rows = [], currentRow = [], currentField = js ''a'', insideQuotes = True\<rparr>"
        "QUOTE # js ''a,b''" 2 "js ''x,y'' @ [CR, LF] @ js ''z''"]
  by (simp add: js_Nil js_Cons trim_def isWhiteSpace_def)

text \<open>
  C3: a quote character read in quote mode and followed by a quote character puts one
  quote character into the current field, and the loop goes on two places further;
  any other quote character only flips the flag and leaves the field as it is. No
  other step of the loop, and not the block after it, brings a quote character into
  texts that hold none. So when a cell of the result holds a quote character, the
  loop has taken the escape branch: at some index it entered the body in quote mode
  on a quote character followed by a quote character. A quoted text with its quote
  characters doubled parses to that text, trimmed; the spec's example is an instance.
\<close>

theorem escaped_quote:
  "(i < length csvText \<and> csvText ! i = QUOTE \<and> insideQuotes st \<and>
    charAt csvText (i + 1) = Some QUOTE \<longrightarrow>
      body csvText i st = (i + 1, st\<lparr>currentField := currentField st @ [QUOTE]\<rparr>) \<and>
      loop csvText i st =
        loop csvText (i + 2) (st\<lparr>currentField := currentField st @ [QUOTE]\<rparr>)) \<and>
   (csvText ! i = QUOTE \<and> \<not> (insideQuotes st \<and> charAt csvText (i + 1) = Some QUOTE) \<longrightarrow>
      body csvText i st = (i, st\<lparr>insideQuotes := \<not> insideQuotes st\<rparr>)) \<and>
   (\<not> escapes csvText i st \<and> quoteFree st \<longrightarrow> quoteFree (snd (body csvText i st))) \<and>
   (quoteFree st \<longrightarrow> quoteFree (lastRow st)) \<and>
   (parseCSV csvText = Some t \<and> row \<in> set t \<and> cell \<in> set row \<and> QUOTE \<in> set cell \<longrightarrow>
      (\<exists>j s. reach csvText j s \<and> j < length csvText \<and> escapes csvText j s \<and>
             escapedAt csvText j)) \<and>
   parseCSV (QUOTE # escapeQuotes w @ [QUOTE]) = Some (if trim w = [] then [] else [[trim w]]) \<and>
   parseCSV (QUOTE # js ''a'' @ [QUOTE, QUOTE] @ js ''b'' @ [QUOTE] @ js '',c'') =
     Some [[js ''a'' @ [QUOTE] @ js ''b'', js ''c'']]"
proof (intro conjI impI)
  assume a: "i < length csvText \<and> csvText ! i = QUOTE \<and> insideQuotes st \<and>
    charAt csvText (i + 1) = Some QUOTE"
  then show b: "body csvText i st = (i + 1, st\<lparr>currentField := currentField st @ [QUOTE]\<rparr>)"
    by (intro body_escape) simp_all
  from a have "i < length csvText"
    by simp
  then have "loop csvText i st =
      loop csvText (i + 1 + 1) (st\<lparr>currentField := currentField st @ [QUOTE]\<rparr>)"
    using b by (rule loop_step)
  then show "loop csvText i st =
      loop csvText (i + 2) (st\<lparr>currentField := currentField st @ [QUOTE]\<rparr>)"
    by (simp add: numeral_2_eq_2)
next
  assume "csvText ! i = QUOTE \<and> \<not> (insideQuotes st \<and> charAt csvText (i + 1) = Some QUOTE)"
  then show "body csvText i st = (i, st\<lparr>insideQuotes := \<not> insideQuotes st\<rparr>)"
    by (intro body_toggle) simp_all
next
  assume "\<not> escapes csvText i st \<and> quoteFree st"
  then show "quoteFree (snd (body csvText i st))"
    by (intro body_keeps_quoteFree) simp_all
next
  assume "quoteFree st"
  then show "quoteFree (lastRow st)"
    by (rule lastRow_quoteFree)
next
  assume "parseCSV csvText = Some t \<and> row \<in> set t \<and> cell \<in> set row \<and> QUOTE \<in> set cell"
  then show "\<exists>j s. reach csvText j s \<and> j < length csvText \<and> escapes csvText j s \<and>
      escapedAt csvText j"
    using parse_quote_escape [of csvText t row cell] by simp
qed (rule parse_escaped, rule run_escaped_quote)

theorem escaped_quote_witness:
  "(\<exists>j s. reach (QUOTE # js ''a'' @ [QUOTE, QUOTE] @ js ''b'' @ [QUOTE] @ js '',c'') j s \<and>
      j < length (QUOTE # js ''a'' @ [QUOTE, QUOTE] @ js ''b'' @ [QUOTE] @ js '',c'') \<and>
      escapes (QUOTE # js ''a'' @ [QUOTE, QUOTE] @ js ''b'' @ [QUOTE] @ js '',c'') j s) \<and>
   body (QUOTE # js ''a'' @ [QUOTE, QUOTE] @ js ''b'' @ [QUOTE] @ js '',c'') 2
     (vars [] [] (js ''a'') True) = (3, vars [] [] (js ''a'' @ [QUOTE]) True) \<and>
   body (QUOTE # js ''a'' @ [QUOTE, QUOTE] @ js ''b'' @ [QUOTE] @ js '',c'') 0 initial =
     (0, initial\<lparr>insideQuotes := True\<rparr>) \<and>
   quoteFree (snd (body (js ''a,b'') 1 (vars [] [] (js ''a'') False))) \<and>
   quoteFree (lastRow (vars [] [js ''a''] (js ''b'') False))"
proof -
  let ?s = "QUOTE # js ''a'' @ [QUOTE, QUOTE] @ js ''b'' @ [QUOTE] @ js '',c''"
  let ?st = "vars [] [] (js ''a'') True"
  have "parseCSV ?s = Some [[js ''a'' @ [QUOTE] @ js ''b'', js ''c'']]"
    by (rule run_escaped_quote)
  then have "\<exists>j s. reach ?s j s \<and> j < length ?s \<and> escapes ?s j s \<and> escapedAt ?s j"
    using escaped_quote [where csvText = ?s and t = "[[js ''a'' @ [QUOTE] @ js ''b'', js ''c'']]"
      and row = "[js ''a'' @ [QUOTE] @ js ''b'', js ''c'']" and cell = "js ''a'' @ [QUOTE] @ js ''b''"]
    by simp
  then have "\<exists>j s. reach ?s j s \<and> j < length ?s \<and> escapes ?s j s"
    by blast
  moreover have "body ?s 2 ?st = (2 + 1, ?st\<lparr>currentField := currentField ?st @ [QUOTE]\<rparr>)"
    using escaped_quote [of 2 ?s ?st] by (simp add: charAt_def js_Nil js_Cons)
  moreover have "body ?s 0 initial = (0, initial\<lparr>insideQuotes := \<not> insideQuotes initial\<rparr>)"
    using escaped_quote [of 0 ?s initial] by (simp add: initial_def)
  moreover have "quoteFree (snd (body (js ''a,b'') 1 (vars [] [] (js ''a'') False)))"
    using escaped_quote [of 1 "js ''a,b''" "vars [] [] (js ''a'') False"]
    by (simp add: escapes_def quoteFree_def js_Nil js_Cons)
  moreover have "quoteFree (lastRow (vars [] [js ''a''] (js ''b'') False))"
    using escaped_quote [where st = "vars [] [js ''a''] (js ''b'') False"]
    by (simp add: quoteFree_def js_Nil js_Cons)
  ultimately show ?thesis
    by (simp add: initial_def)
qed

text \<open>
  C4: outside quote mode a carriage return followed by a line feed ends the row once,
  and the loop goes on behind the line feed, which is never read as a character of
  its own; a lone line feed or carriage return ends the row in the same way. The
  spec's example with mixed line endings has three rows and no blank one.
\<close>

theorem crlf_single_terminator:
  "(i < length csvText \<and> csvText ! i = CR \<and> charAt csvText (i + 1) = Some LF \<and>
    \<not> insideQuotes st \<longrightarrow>
      body csvText i st = (i + 1, endRow st) \<and>
      loop csvText i st = loop csvText (i + 2) (endRow st)) \<and>
   (i < length csvText \<and>
    (csvText ! i = LF \<or> (csvText ! i = CR \<and> charAt csvText (i + 1) \<noteq> Some LF)) \<and>
    \<not> insideQuotes st \<longrightarrow>
      body csvText i st = (i, endRow st) \<and>
      loop csvText i st = loop csvText (i + 1) (endRow st)) \<and>
   parseCSV (js ''a,b'' @ [CR, LF] @ js ''c,d'' @ [LF] @ js ''e,f'') =
     Some [[js ''a'', js ''b''], [js ''c'', js ''d''], [js ''e'', js ''f'']]"
proof (intro conjI impI)
  assume a: "i < length csvText \<and> csvText ! i = CR \<and> charAt csvText (i + 1) = Some LF \<and>
    \<not> insideQuotes st"
  then show b: "body csvText i st = (i + 1, endRow st)"
    using body_terminator [of csvText i st] by simp
  from a have "i < length csvText"
    by simp
  then have "loop csvText i st = loop csvText (i + 1 + 1) (endRow st)"
    using b by (rule loop_step)
  then show "loop csvText i st = loop csvText (i + 2) (endRow st)"
    by (simp add: numeral_2_eq_2)
next
  assume a: "i < length csvText \<and>
    (csvText ! i = LF \<or> (csvText ! i = CR \<and> charAt csvText (i + 1) \<noteq> Some LF)) \<and>
    \<not> insideQuotes st"
  then show b: "body csvText i st = (i, endRow st)"
    using body_terminator [of csvText i st] by auto
  from a have "i < length csvText"
    by simp
  then show "loop csvText i st = loop csvText (i + 1) (endRow st)"
    using b by (rule loop_step)
qed (rule run_mixed_terminators)

theorem crlf_single_terminator_witness:
  "body (js ''a,b'' @ [CR, LF] @ js ''c,d'') 3
     \<lparr>rows = [], currentRow = [js ''a''], currentField = js ''b'', insideQuotes = False\<rparr> =
     (4, \<lparr>rows = [[js ''a'', js ''b'']], currentRow = [], currentField = [],
          insideQuotes = False\<rparr>) \<and>
   body (js ''c'' @ [LF]) 1
     \<lparr>rows = [], currentRow = [], currentField = js ''c'', insideQuotes = False\<rparr> =
     (1, \<lparr>rows = [[js ''c'']], currentRow = [], currentField = [], insideQuotes = False\<rparr>)"
  using crlf_single_terminator
    [of 3 "js ''a,b'' @ [CR, LF] @ js ''c,d''"
        "\<lparr>rows = [], currentRow = [js ''a''], currentField = js ''b'', insideQuotes = False\<rparr>"]
    crlf_single_terminator
    [of 1 "js ''c'' @ [LF]"
        "\<lparr>rows = [], currentRow = [], currentField = js ''c'', insideQuotes = False\<rparr>"]
  by (simp add: charAt_def endRow_def trim_def isWhiteSpace_def js_Nil js_Cons)

text \<open>
  C5: the table returned never holds a row whose cells are all the empty string (a
  row without cells included): the final \<open>filter\<close> keeps only rows with a
  non-empty cell. In the spec's example the middle row of two empty cells is gone.
\<close>

theorem no_blank_rows:
  "(\<exists>t. parseCSV csvText = Some t \<and> (\<forall>row\<in>set t. \<exists>cell\<in>set row. cell \<noteq> [])) \<and>
   parseCSV (js ''a,b'' @ [LF] @ js '','' @ [LF] @ js ''c,d'') =
     Some [[js ''a'', js ''b''], [js ''c'', js ''d'']]"
proof (intro conjI)
  obtain st where "loop csvText 0 initial = Some st"
    using loop_leaves [of csvText 0 initial] by blast
  then obtain t where t: "parseCSV csvText = Some t"
    by (simp add: parseCSV_def)
  then have "\<forall>row\<in>set t. \<exists>cell\<in>set row. cell \<noteq> []"
    by (auto simp: parseCSV_def list_ex_iff split: option.splits)
  with t show "\<exists>t. parseCSV csvText = Some t \<and> (\<forall>row\<in>set t. \<exists>cell\<in>set row. cell \<noteq> [])"
    by blast
qed (rule run_blank_row)

theorem no_blank_rows_witness:
  "list_all nonBlank [[js ''a'', js ''b''], [js ''c'', js ''d'']]"
proof -
  let ?s = "js ''a,b'' @ [LF] @ js '','' @ [LF] @ js ''c,d''"
  obtain t where "parseCSV ?s = Some t" "\<forall>row\<in>set t. \<exists>cell\<in>set row. cell \<noteq> []"
    using no_blank_rows [of ?s] by blast
  moreover have "parseCSV ?s = Some [[js ''a'', js ''b''], [js ''c'', js ''d'']]"
    by (rule run_blank_row)
  ultimately have "\<forall>row\<in>set [[js ''a'', js ''b''], [js ''c'', js ''d'']]. \<exists>cell\<in>set row. cell \<noteq> []"
    by simp
  then show ?thesis
    by (simp only: list_all_iff list_ex_iff)
qed

text \<open>
  C6: every cell of the result is trimmed: another \<open>trim\<close> leaves it as it is, and a
  non-empty cell neither starts nor ends with white space. On every input, every
  cell of the result is the \<open>trim\<close> of the current field as it stood when the loop
  came to a comma or a terminator outside quotes, or to the end of the input. Each
  of the three places that push a cell pushes the \<open>trim\<close> of the current field, and
  an ordinary character joins the current field as it is, with no trimming at that
  time. \<open>trim\<close> takes white space off the two ends only, so white space inside a
  field stays. For a table written as CSV text, with fields plain or in quotes, the
  result holds the trimmed text of each field, rows of blank cells left out. The
  spec's example is an instance.
\<close>

theorem cells_trimmed:
  "(parseCSV csvText = Some t \<and> row \<in> set t \<and> cell \<in> set row \<longrightarrow>
      trim cell = cell \<and>
      (cell \<noteq> [] \<longrightarrow> \<not> isWhiteSpace (hd cell) \<and> \<not> isWhiteSpace (last cell))) \<and>
   (parseCSV csvText = Some t \<and> row \<in> set t \<and> cell \<in> set row \<longrightarrow>
      (\<exists>j s. reach csvText j s \<and> finalizes csvText j s \<and> cell = trim (currentField s))) \<and>
   (s ! i \<noteq> QUOTE \<and> s ! i \<noteq> COMMA \<and> s ! i \<noteq> LF \<and> s ! i \<noteq> CR \<longrightarrow>
      body s i st = (i, st\<lparr>currentField := currentField st @ [s ! i]\<rparr>)) \<and>
   (s ! i = COMMA \<and> \<not> insideQuotes st \<longrightarrow>
      body s i st =
        (i, st\<lparr>currentRow := currentRow st @ [trim (currentField st)], currentField := []\<rparr>)) \<and>
   ((s ! i = LF \<or> s ! i = CR) \<and> \<not> insideQuotes st \<longrightarrow>
      snd (body s i st) =
        (if currentField st \<noteq> [] \<or> currentRow st \<noteq> []
         then st\<lparr>rows := rows st @ [currentRow st @ [trim (currentField st)]],
                 currentRow := [], currentField := []\<rparr>
         else st)) \<and>
   lastRow st =
     (if currentField st \<noteq> [] \<or> currentRow st \<noteq> []
      then st\<lparr>rows := rows st @ [currentRow st @ [trim (currentField st)]]\<rparr>
      else st) \<and>
   (QUOTE \<notin> set w \<and> COMMA \<notin> set w \<and> LF \<notin> set w \<and> CR \<notin> set w \<longrightarrow>
      parseCSV w = Some (if trim w = [] then [] else [[trim w]])) \<and>
   (QUOTE \<notin> set w \<longrightarrow>
      parseCSV (QUOTE # w @ [QUOTE]) = Some (if trim w = [] then [] else [[trim w]])) \<and>
   (wellFormed grid \<longrightarrow>
      parseCSV (encodeTable grid) = Some (filter nonBlank (map cellsOf grid))) \<and>
   (\<exists>a b. w = a @ trim w @ b \<and> (\<forall>c\<in>set a. isWhiteSpace c) \<and> (\<forall>c\<in>set b. isWhiteSpace c)) \<and>
   parseCSV (js ''  x  , y '') = Some [[js ''x'', js ''y'']] \<and>
   parseCSV (js '' a b ,c'') = Some [[js ''a b'', js ''c'']] \<and>
   parseCSV (js ''a  b'') = Some [[js ''a  b'']]"
proof (intro conjI impI)
  assume a: "parseCSV csvText = Some t \<and> row \<in> set t \<and> cell \<in> set row"
  then show fixed: "trim cell = cell"
    using parse_cells_trimmed [of csvText t row cell] by simp
  assume "cell \<noteq> []"
  with fixed have "trim cell \<noteq> []"
    by simp
  then have "\<not> isWhiteSpace (hd (trim cell)) \<and> \<not> isWhiteSpace (last (trim cell))"
    by (rule trim_ends)
  with fixed show "\<not> isWhiteSpace (hd cell)" "\<not> isWhiteSpace (last cell)"
    by simp_all
next
  assume "parseCSV csvText = Some t \<and> row \<in> set t \<and> cell \<in> set row"
  then show "\<exists>j s. reach csvText j s \<and> finalizes csvText j s \<and> cell = trim (currentField s)"
    using parse_cell_origin [of csvText t row cell] by simp
next
  assume "s ! i \<noteq> QUOTE \<and> s ! i \<noteq> COMMA \<and> s ! i \<noteq> LF \<and> s ! i \<noteq> CR"
  then show "body s i st = (i, st\<lparr>currentField := currentField st @ [s ! i]\<rparr>)"
    by (intro body_other) simp_all
next
  assume "s ! i = COMMA \<and> \<not> insideQuotes st"
  then show "body s i st =
      (i, st\<lparr>currentRow := currentRow st @ [trim (currentField st)], currentField := []\<rparr>)"
    by (intro body_comma) simp_all
next
  assume "(s ! i = LF \<or> s ! i = CR) \<and> \<not> insideQuotes st"
  then show "snd (body s i st) =
      (if currentField st \<noteq> [] \<or> currentRow st \<noteq> []
       then st\<lparr>rows := rows st @ [currentRow st @ [trim (currentField st)]],
               currentRow := [], currentField := []\<rparr>
       else st)"
    using body_terminator [of s i st] by (simp add: endRow_def)
next
  show "lastRow st =
     (if currentField st \<noteq> [] \<or> currentRow st \<noteq> []
      then st\<lparr>rows := rows st @ [currentRow st @ [trim (currentField st)]]\<rparr>
      else st)"
    by (simp add: lastRow_def)
next
  assume "QUOTE \<notin> set w \<and> COMMA \<notin> set w \<and> LF \<notin> set w \<and> CR \<notin> set w"
  then show "parseCSV w = Some (if trim w = [] then [] else [[trim w]])"
    by (intro parse_plain) simp_all
next
  assume "QUOTE \<notin> set w"
  then show "parseCSV (QUOTE # w @ [QUOTE]) = Some (if trim w = [] then [] else [[trim w]])"
    by (rule parse_quoted)
next
  assume "wellFormed grid"
  then show "parseCSV (encodeTable grid) = Some (filter nonBlank (map cellsOf grid))"
    by (rule parse_encodeTable)
next
  show "\<exists>a b. w = a @ trim w @ b \<and> (\<forall>c\<in>set a. isWhiteSpace c) \<and> (\<forall>c\<in>set b. isWhiteSpace c)"
    by (rule trim_split)
qed (rule run_spaces, rule run_comma_spaces, rule run_inner_spaces)

theorem cells_trimmed_witness:
  "trim (js ''a b'') = js ''a b'' \<and>
   (\<exists>j s. reach (js '' a b ,c'') j s \<and> finalizes (js '' a b ,c'') j s \<and>
      js ''a b'' = trim (currentField s)) \<and>
   body (js ''p q'') 1 (vars [] [] (js ''p'') False) = (1, vars [] [] (js ''p '') False) \<and>
   body (js '' a b ,c'') 5 (vars [] [] (js '' a b '') False) =
     (5, vars [] [js ''a b''] [] False) \<and>
   snd (body (js ''c '' @ [LF]) 2 (vars [] [js ''a b''] (js ''c '') False)) =
     vars [[js ''a b'', js ''c'']] [] [] False \<and>
   parseCSV (js '' p  q '') = Some [[js ''p  q'']] \<and>
   parseCSV (QUOTE # js '' p  q '' @ [QUOTE]) = Some [[js ''p  q'']] \<and>
   parseCSV (encodeTable
       [[Plain (js '' a b ''), Quoted (js '' x, '' @ [QUOTE] @ js ''y '')],
        [Plain []],
        [Plain (js ''c'')]]) =
     Some [[js ''a b'', js ''x, '' @ [QUOTE] @ js ''y''], [js ''c'']]"
proof -
  let ?s = "js '' a b ,c''"
  have p: "parseCSV ?s = Some [[js ''a b'', js ''c'']]"
    by (rule run_comma_spaces)
  then have "trim (js ''a b'') = js ''a b''"
    using cells_trimmed [where csvText = ?s and t = "[[js ''a b'', js ''c'']]"
      and row = "[js ''a b'', js ''c'']" and cell = "js ''a b''"]
    by simp
  moreover have "\<exists>j s. reach ?s j s \<and> finalizes ?s j s \<and> js ''a b'' = trim (currentField s)"
    using p cells_trimmed [where csvText = ?s and t = "[[js ''a b'', js ''c'']]"
      and row = "[js ''a b'', js ''c'']" and cell = "js ''a b''"]
    by simp
  moreover have "body (js ''p q'') 1 (vars [] [] (js ''p'') False) =
      (1, vars [] [] (js ''p '') False)"
    using cells_trimmed [where s = "js ''p q''" and i = 1 and st = "vars [] [] (js ''p'') False"]
    by (simp add: js_Nil js_Cons)
  moreover have "body ?s 5 (vars [] [] (js '' a b '') False) = (5, vars [] [js ''a b''] [] False)"
    using cells_trimmed [where s = ?s and i = 5 and st = "vars [] [] (js '' a b '') False"]
    by (simp add: js_Nil js_Cons trim_def isWhiteSpace_def)
  moreover have "snd (body (js ''c '' @ [LF]) 2 (vars [] [js ''a b''] (js ''c '') False)) =
      vars [[js ''a b'', js ''c'']] [] [] False"
    using cells_trimmed [where s = "js ''c '' @ [LF]" and i = 2
      and st = "vars [] [js ''a b''] (js ''c '') False"]
    by (simp add: js_Nil js_Cons trim_def isWhiteSpace_def)
  moreover have "parseCSV (js '' p  q '') = Some [[js ''p  q'']]"
    using cells_trimmed [where w = "js '' p  q ''"]
    by (simp add: js_Nil js_Cons trim_def isWhiteSpace_def)
  moreover have "parseCSV (QUOTE # js '' p  q '' @ [QUOTE]) = Some [[js ''p  q'']]"
    using cells_trimmed [where w = "js '' p  q ''"]
    by (simp add: js_Nil js_Cons trim_def isWhiteSpace_def)
  moreover have "parseCSV (encodeTable
       [[Plain (js '' a b ''), Quoted (js '' x, '' @ [QUOTE] @ js ''y '')],
        [Plain []],
        [Plain (js ''c'')]]) =
     Some [[js ''a b'', js ''x, '' @ [QUOTE] @ js ''y''], [js ''c'']]"
    using cells_trimmed [where grid = "[[Plain (js '' a b ''), Quoted (js '' x, '' @ [QUOTE] @ js ''y '')],
        [Plain []], [Plain (js ''c'')]]"]
    by (simp add: wellFormed_def plainText_def js_Nil js_Cons trim_def isWhiteSpace_def)
  ultimately show ?thesis
    by simp
qed

text \<open>
  C7 as the spec has it fails: a cell that came from a quoted field can hold a comma,
  and parsing it again splits it.
\<close>

theorem reparse_counterexample:
  "parseCSV (QUOTE # js ''a,b'' @ [QUOTE]) = Some [[js ''a,b'']] \<and>
   js ''a,b'' \<noteq> [] \<and>
   parseCSV (js ''a,b'') = Some [[js ''a'', js ''b'']] \<and>
   parseCSV (js ''a,b'') \<noteq> Some [[js ''a,b'']]"
  by (simp add: run)

text \<open>
  C7, amended: a non-empty cell of the result that holds no quote character, comma,
  line feed or carriage return parses to the table of that one cell, unchanged,
  since it is trimmed already.
\<close>

theorem reparse_plain_cell:
  assumes "parseCSV csvText = Some t" "row \<in> set t" "cell \<in> set row" "cell \<noteq> []"
    and "QUOTE \<notin> set cell" "COMMA \<notin> set cell" "LF \<notin> set cell" "CR \<notin> set cell"
  shows "parseCSV cell = Some [[cell]]"
proof -
  have "trim cell = cell"
    using assms(1-3) by (rule parse_cells_trimmed)
  moreover have "parseCSV cell = Some (if trim cell = [] then [] else [[trim cell]])"
    using assms(5-8) by (rule parse_plain)
  ultimately show ?thesis
    using assms(4) by simp
qed

theorem reparse_plain_cell_witness: "parseCSV (js ''x'') = Some [[js ''x'']]"
proof -
  have "parseCSV (js ''  x  , y '') = Some [[js ''x'', js ''y'']]"
    by (rule run_spaces)
  then show ?thesis
    by (rule reparse_plain_cell [where row = "[js ''x'', js ''y'']"])
      (simp_all add: js_Nil js_Cons)
qed

text \<open>
  C8: the empty string, and every string of white space (line feeds and carriage
  returns included) only, parses to the empty table.
\<close>

theorem blank_input:
  "((\<forall>c\<in>set csvText. isWhiteSpace c) \<longrightarrow> parseCSV csvText = Some []) \<and>
   parseCSV [] = Some [] \<and>
   parseCSV (js ''   '' @ [LF, LF] @ js ''  '') = Some []"
proof (intro conjI impI)
  assume "\<forall>c\<in>set csvText. isWhiteSpace c"
  then show "parseCSV csvText = Some []"
    by (rule parse_blank)
qed (rule run_empty, rule run_blank)

theorem blank_input_witness:
  "parseCSV ([0x09, CR, LF, SPACE, 0xA0, 0x2003, 0xFEFF, LF]) = Some []"
  using blank_input [of "[0x09, CR, LF, SPACE, 0xA0, 0x2003, 0xFEFF, LF]"]
  by (simp add: isWhiteSpace_def)

text \<open>
  C9: the block after the loop looks at the current field and the current row only,
  never at the quote-mode flag: whenever one of the two is non-empty, the trimmed
  field joins the row and the row joins the table, with no terminator needed. An
  input that opens a quote and never closes it ends with the flag still set, and
  its text becomes the one cell all the same.
\<close>

theorem unclosed_quote_finalized:
  "(\<exists>st. loop csvText 0 initial = Some st \<and>
      parseCSV csvText =
        Some (filter nonBlank
          (if currentField st \<noteq> [] \<or> currentRow st \<noteq> []
           then rows st @ [currentRow st @ [trim (currentField st)]]
           else rows st))) \<and>
   (QUOTE \<notin> set w \<longrightarrow>
      (\<exists>st. loop (QUOTE # w) 0 initial = Some st \<and> insideQuotes st \<and> currentField st = w) \<and>
      parseCSV (QUOTE # w) = Some (if trim w = [] then [] else [[trim w]])) \<and>
   parseCSV (js ''a,'' @ QUOTE # js ''b'') = Some [[js ''a'', js ''b'']]"
proof (intro conjI impI)
  obtain st where st: "loop csvText 0 initial = Some st"
    using loop_leaves [of csvText 0 initial] by blast
  then have "parseCSV csvText =
        Some (filter nonBlank
          (if currentField st \<noteq> [] \<or> currentRow st \<noteq> []
           then rows st @ [currentRow st @ [trim (currentField st)]]
           else rows st))"
    by (simp add: parseCSV_def lastRow_def)
  with st show "\<exists>st. loop csvText 0 initial = Some st \<and>
      parseCSV csvText =
        Some (filter nonBlank
          (if currentField st \<noteq> [] \<or> currentRow st \<noteq> []
           then rows st @ [currentRow st @ [trim (currentField st)]]
           else rows st))"
    by blast
next
  assume w: "QUOTE \<notin> set w"
  then show "\<exists>st. loop (QUOTE # w) 0 initial = Some st \<and> insideQuotes st \<and> currentField st = w"
    using loop_unclosed [of w] by blast
  from w show "parseCSV (QUOTE # w) = Some (if trim w = [] then [] else [[trim w]])"
    by (rule parse_unclosed)
qed (rule run_open_quote)

theorem unclosed_quote_finalized_witness:
  "parseCSV (QUOTE # js ''a, b '' @ [LF]) = Some [[js ''a, b'']]"
  using unclosed_quote_finalized [of _ "js ''a, b '' @ [LF]"]
  by (simp add: js_Nil js_Cons trim_def isWhiteSpace_def)

text \<open>
  C10: the parser of \<open>csv_to_wpblock/script.js\<close> and the parser of
  \<open>csv_to_html/script.js\<close> return the same table on every input.
\<close>

theorem parsers_agree: "parseCSV_wp csvText = parseCSV csvText"
  unfolding parseCSV_wp_def parseCSV_def loop_wp_loop lastRow_wp_lastRow by (rule refl)

theorem parsers_agree_witness:
  "parseCSV_wp (js ''a,b'') = Some [[js ''a'', js ''b'']]"
  using parsers_agree [of "js ''a,b''"] run_comma by simp

end
